theory Spec2Isabelle
  imports Main "HOL-Library.Sublist"
begin

section \<open>The http\_yaml external pillar: \<open>salt/pillar/http_yaml.py\<close>\<close>

text \<open>
  The module has one function, \<open>ext_pillar(minion_id, pillar, url, with_grains)\<close>.
  It calls two host services, \<open>__salt__['grains.get']\<close> and \<open>__salt__['http.query']\<close>,
  and three library functions: \<open>str.replace\<close>, \<open>urllib.parse.quote\<close> and the \<open>re\<close>
  module (\<open>re.finditer\<close> with a fixed pattern, \<open>re.sub\<close> with a pattern built from the
  grain name). The host services are parameters of the model: \<open>grains.get\<close> is a
  function from the grain name to an exception or a value, \<open>http.query\<close> a function from
  the URL to an exception or an envelope. The library functions are modelled below with
  the semantics of Python 3 (3.7 or later for \<open>quote\<close>), a string being the UTF-8 bytes
  of the Python string. What \<open>re.sub\<close> does outside the modelled fragment of the
  pattern language is a further parameter of the model.
\<close>

subsection \<open>Python values, exceptions, outcomes\<close>

text \<open>
  The values of an envelope and the arguments of a log record: \<open>ext_pillar\<close> passes
  them on and never looks inside.
\<close>

datatype pyval =
    PNone
  | PBool bool
  | PInt int
  | PStr string
  | PList "pyval list"
  | PDict "(string \<times> pyval) list"

text \<open>
  A grain value. The function applies \<open>not\<close> and \<open>str()\<close> to it and nothing else, so
  an object of any other type (a float, a list, a dictionary) is given by its truth value
  and its \<open>str()\<close> text.
\<close>

datatype grain =
    GNone
  | GBool bool
  | GInt int
  | GStr string
  | GOther bool string

text \<open>Python's truth value of an object, as tested by \<open>not grain_value\<close>.\<close>

fun truthy :: "grain \<Rightarrow> bool" where
  "truthy GNone = False"
| "truthy (GBool b) = b"
| "truthy (GInt i) = (i \<noteq> 0)"
| "truthy (GStr s) = (s \<noteq> [])"
| "truthy (GOther t s) = t"

datatype exn =
    ReError             \<comment> \<open>raised by \<open>re.sub\<close>: \<open>re.error\<close>, the pattern does not compile\<close>
  | KeyError            \<comment> \<open>\<open>data[key]\<close> on a missing key\<close>
  | Collaborator string \<comment> \<open>an exception raised inside a host service\<close>

text \<open>The outcome of a computation: a value or a raised exception.\<close>

datatype 'a py = Val 'a | Raised exn

subsection \<open>\<open>str()\<close> of a grain value\<close>

definition digit_char :: "nat \<Rightarrow> char" where
  "digit_char n = ''0123456789'' ! (n mod 10)"

function str_nat :: "nat \<Rightarrow> string" where
  "str_nat n = (if n < 10 then [digit_char n] else str_nat (n div 10) @ [digit_char n])"
  by pat_completeness auto
termination
  by (relation "measure (\<lambda>n. n)") auto

declare str_nat.simps [simp del]

definition str_int :: "int \<Rightarrow> string" where
  "str_int i = (if i < 0 then CHR ''-'' # str_nat (nat (- i)) else str_nat (nat i))"

text \<open>\<open>str(v)\<close>.\<close>

fun py_str :: "grain \<Rightarrow> string" where
  "py_str GNone = ''None''"
| "py_str (GBool b) = (if b then ''True'' else ''False'')"
| "py_str (GInt i) = str_int i"
| "py_str (GStr s) = s"
| "py_str (GOther t s) = s"

subsection \<open>\<open>urllib.parse.quote\<close> with its default \<open>safe='/'\<close>\<close>

text \<open>
  Letters, digits and \<open>_.-~\<close> are never quoted, nor is \<open>/\<close>; every other byte of the
  UTF-8 encoding becomes \<open>%\<close> and two upper-case hexadecimal digits.
\<close>

definition always_safe :: "char \<Rightarrow> bool" where
  "always_safe c \<longleftrightarrow>
     c \<in> set (''ABCDEFGHIJKLMNOPQRSTUVWXYZ'' @ ''abcdefghijklmnopqrstuvwxyz'' @ ''0123456789'' @ ''_.-~'')"

definition hex_digit :: "nat \<Rightarrow> char" where
  "hex_digit n = ''0123456789ABCDEF'' ! (n mod 16)"

definition quote_char :: "char \<Rightarrow> string" where
  "quote_char c =
     (if always_safe c \<or> c = CHR ''/'' then [c]
      else [CHR ''%'', hex_digit (of_char c div 16), hex_digit (of_char c)])"

definition quote :: "string \<Rightarrow> string" where
  "quote s = concat (map quote_char s)"

subsection \<open>\<open>str.replace(old, new)\<close>\<close>

text \<open>
  The occurrences of \<open>old\<close> are taken from the left and do not overlap; an empty
  \<open>old\<close> puts \<open>new\<close> before every character and at the end.
\<close>

function str_replace :: "string \<Rightarrow> string \<Rightarrow> string \<Rightarrow> string" where
  "str_replace old new [] = (if old = [] then new else [])"
| "str_replace old new (c # cs) =
     (if old = [] then new @ concat (map (\<lambda>x. x # new) (c # cs))
      else if prefix old (c # cs) then new @ str_replace old new (drop (length old) (c # cs))
      else c # str_replace old new cs)"
  by pat_completeness auto
termination
  by (relation "measure (\<lambda>(old, new, s). length s)") auto

subsection \<open>A fragment of the \<open>re\<close> module\<close>

text \<open>
  Patterns of the fragment are sequences of one-character atoms (a literal character, or
  \<open>.\<close> for any character but the newline), each taken once or under one of the
  quantifiers \<open>*\<close>, \<open>+\<close>, \<open>?\<close> (greedy) and \<open>*?\<close>, \<open>+?\<close>, \<open>??\<close> (lazy).
\<close>

datatype atom = Lit char | Dot
datatype quant = Once | Star | Plus | Opt | LazyStar | LazyPlus | LazyOpt

type_synonym item = "atom \<times> quant"

definition newline :: char where
  "newline = CHR 0x0A"

definition backslash :: char where
  "backslash = CHR 0x5C"

fun atom_ok :: "atom \<Rightarrow> char \<Rightarrow> bool" where
  "atom_ok (Lit a) c = (c = a)"
| "atom_ok Dot c = (c \<noteq> newline)"

definition is_quant :: "char \<Rightarrow> bool" where
  "is_quant c \<longleftrightarrow> c \<in> set ''*+?''"

definition quant_of :: "char \<Rightarrow> quant" where
  "quant_of c = (if c = CHR ''*'' then Star else if c = CHR ''+'' then Plus else Opt)"

fun lazy_of :: "quant \<Rightarrow> quant" where
  "lazy_of Star = LazyStar"
| "lazy_of Plus = LazyPlus"
| "lazy_of Opt = LazyOpt"
| "lazy_of q = q"

definition is_special :: "char \<Rightarrow> bool" where
  "is_special c \<longleftrightarrow> c \<in> set (''.^$*+?{}[]|()'' @ [backslash])"

definition atom_of :: "char \<Rightarrow> atom" where
  "atom_of c = (if c = CHR ''.'' then Dot else Lit c)"

definition is_ascii :: "char \<Rightarrow> bool" where
  "is_ascii c \<longleftrightarrow> (of_char c :: nat) < 128"

text \<open>
  The parser reads an atom and the quantifier after it, if any. A quantifier with no atom
  before it is Python's "nothing to repeat"; a quantifier character after a lazy
  quantifier, and \<open>*\<close> after a greedy one, is Python's "multiple repeat": the pattern is
  \<open>Invalid\<close>. \<open>Outside\<close> the fragment are: \<open>+\<close> after a greedy quantifier (possessive
  since Python 3.11, an error before), the other metacharacters, and a quantifier after a
  byte of a multi-byte character, which Python applies to the whole character.
\<close>

datatype compiled = Compiled "item list" | Invalid | Outside

fun with_item :: "item \<Rightarrow> compiled \<Rightarrow> compiled" where
  "with_item i (Compiled items) = Compiled (i # items)"
| "with_item i Invalid = Invalid"
| "with_item i Outside = Outside"

fun parse_items :: "string \<Rightarrow> compiled" where
  "parse_items [] = Compiled []"
| "parse_items [c] =
     (if is_quant c then Invalid
      else if is_special c \<and> c \<noteq> CHR ''.'' then Outside
      else Compiled [(atom_of c, Once)])"
| "parse_items [c, q] =
     (if is_quant c then Invalid
      else if is_special c \<and> c \<noteq> CHR ''.'' then Outside
      else if is_quant q then
        (if \<not> is_ascii c then Outside else Compiled [(atom_of c, quant_of q)])
      else with_item (atom_of c, Once) (parse_items [q]))"
| "parse_items (c # q # l # cs) =
     (if is_quant c then Invalid
      else if is_special c \<and> c \<noteq> CHR ''.'' then Outside
      else if is_quant q then
        (if \<not> is_ascii c then Outside
         else if l = CHR ''?'' then
           (if cs \<noteq> [] \<and> is_quant (hd cs) then Invalid
            else with_item (atom_of c, lazy_of (quant_of q)) (parse_items cs))
         else if l = CHR ''*'' then Invalid
         else if l = CHR ''+'' then Outside
         else with_item (atom_of c, quant_of q) (parse_items (l # cs)))
      else with_item (atom_of c, Once) (parse_items (q # l # cs)))"

text \<open>
  \<open>re.compile\<close>. An opening parenthesis that no closing parenthesis can match, in a
  pattern with neither a character class nor an escape, is Python's
  "missing ), unterminated subpattern".
\<close>

definition re_compile :: "string \<Rightarrow> compiled" where
  "re_compile p =
     (if CHR ''('' \<in> set p \<and> CHR '')'' \<notin> set p \<and> CHR ''['' \<notin> set p \<and> backslash \<notin> set p
      then Invalid
      else parse_items p)"

text \<open>
  Backtracking match of a pattern at the start of a string: the rest of the string after
  the first match in the engine's order of preference, a greedy quantifier trying the
  longer repetition first and a lazy one the shorter.
\<close>

fun rx_match :: "item list \<Rightarrow> string \<Rightarrow> string option" where
  "rx_match [] s = Some s"
| "rx_match ((a, Once) # p) [] = None"
| "rx_match ((a, Once) # p) (c # cs) = (if atom_ok a c then rx_match p cs else None)"
| "rx_match ((a, Plus) # p) [] = None"
| "rx_match ((a, Plus) # p) (c # cs) =
     (if atom_ok a c then rx_match ((a, Star) # p) cs else None)"
| "rx_match ((a, Star) # p) [] = rx_match p []"
| "rx_match ((a, Star) # p) (c # cs) =
     (if atom_ok a c then
        (case rx_match ((a, Star) # p) cs of
           Some r \<Rightarrow> Some r
         | None \<Rightarrow> rx_match p (c # cs))
      else rx_match p (c # cs))"
| "rx_match ((a, Opt) # p) [] = rx_match p []"
| "rx_match ((a, Opt) # p) (c # cs) =
     (if atom_ok a c then
        (case rx_match p cs of
           Some r \<Rightarrow> Some r
         | None \<Rightarrow> rx_match p (c # cs))
      else rx_match p (c # cs))"
| "rx_match ((a, LazyPlus) # p) [] = None"
| "rx_match ((a, LazyPlus) # p) (c # cs) =
     (if atom_ok a c then rx_match ((a, LazyStar) # p) cs else None)"
| "rx_match ((a, LazyStar) # p) [] = rx_match p []"
| "rx_match ((a, LazyStar) # p) (c # cs) =
     (case rx_match p (c # cs) of
        Some r \<Rightarrow> Some r
      | None \<Rightarrow> if atom_ok a c then rx_match ((a, LazyStar) # p) cs else None)"
| "rx_match ((a, LazyOpt) # p) [] = rx_match p []"
| "rx_match ((a, LazyOpt) # p) (c # cs) =
     (case rx_match p (c # cs) of
        Some r \<Rightarrow> Some r
      | None \<Rightarrow> if atom_ok a c then rx_match p cs else None)"

definition may_skip :: "quant \<Rightarrow> bool" where
  "may_skip q \<longleftrightarrow> q = Star \<or> q = Opt \<or> q = LazyStar \<or> q = LazyOpt"

definition nullable :: "item list \<Rightarrow> bool" where
  "nullable p \<longleftrightarrow> (\<forall>(a, q) \<in> set p. may_skip q)"

text \<open>
  The scan of \<open>re.sub\<close>: the leftmost match is replaced and the scan goes on behind it;
  where nothing matches, the character is kept. A match of a pattern that is not
  \<open>nullable\<close> consumes at least one character, so the last branch is never taken by
  \<open>re_sub\<close> (lemma \<open>sub_scan_progress\<close>).
\<close>

function sub_scan :: "item list \<Rightarrow> string \<Rightarrow> string \<Rightarrow> string" where
  "sub_scan p repl [] = []"
| "sub_scan p repl (c # cs) =
     (case rx_match p (c # cs) of
        None \<Rightarrow> c # sub_scan p repl cs
      | Some r \<Rightarrow>
          if length r < length (c # cs) then repl @ sub_scan p repl r
          else c # sub_scan p repl cs)"
  by pat_completeness auto
termination
  by (relation "measure (\<lambda>(p, repl, s). length s)") auto

text \<open>
  \<open>re.sub(pattern, repl, string)\<close>. The pattern is compiled first. Three cases are outside
  the fragment even when the pattern is inside: a backslash in the replacement is an
  escape of the template language, a pattern that matches the empty string has its own
  rules for adjacent matches, and \<open>.\<close> on a multi-byte character takes the whole
  character. What \<open>re.sub\<close> does outside the fragment is the parameter \<open>rest\<close>: it raises
  (\<open>None\<close>: \<open>re.error\<close>, or \<open>OverflowError\<close> for a repetition count that is too large;
  the model keeps one exception for both) or returns a string.
\<close>

type_synonym re_rest = "string \<Rightarrow> string \<Rightarrow> string \<Rightarrow> string option"

definition outside :: "re_rest \<Rightarrow> string \<Rightarrow> string \<Rightarrow> string \<Rightarrow> string py" where
  "outside rest pattern repl s =
     (case rest pattern repl s of None \<Rightarrow> Raised ReError | Some r \<Rightarrow> Val r)"

definition re_sub :: "re_rest \<Rightarrow> string \<Rightarrow> string \<Rightarrow> string \<Rightarrow> string py" where
  "re_sub rest pattern repl s =
     (case re_compile pattern of
        Invalid \<Rightarrow> Raised ReError
      | Outside \<Rightarrow> outside rest pattern repl s
      | Compiled p \<Rightarrow>
          if backslash \<in> set repl \<or> nullable p
             \<or> (Dot \<in> fst ` set p \<and> \<not> list_all is_ascii s)
          then outside rest pattern repl s
          else Val (sub_scan p repl s))"

text \<open>
  \<open>re.finditer\<close>: the texts of the matches, left to right, a match starting where the one
  before ended; as in \<open>sub_scan\<close>, the last branch is not taken for a pattern that is not
  \<open>nullable\<close>.
\<close>

function finditer :: "item list \<Rightarrow> string \<Rightarrow> string list" where
  "finditer p [] = []"
| "finditer p (c # cs) =
     (case rx_match p (c # cs) of
        None \<Rightarrow> finditer p cs
      | Some r \<Rightarrow>
          if length r < length (c # cs)
          then take (length (c # cs) - length r) (c # cs) # finditer p r
          else finditer p cs)"
  by pat_completeness auto
termination
  by (relation "measure (\<lambda>(p, s). length s)") auto

subsection \<open>\<open>re.finditer(r'<(?P<grain_name>.*?)>', url)\<close>\<close>

text \<open>
  The pattern of line 81 is \<open><\<close>, a group holding a lazy \<open>.*\<close>, and \<open>>\<close>. Without the
  group it is the following pattern of the fragment; the group is the matched text
  without its first and last character.
\<close>

definition grain_pattern :: "item list" where
  "grain_pattern = [(Lit CHR ''<'', Once), (Dot, LazyStar), (Lit CHR ''>'', Once)]"

text \<open>
  The scanner below is that search written out (lemma \<open>finditer_grain_regex\<close>).
  After a \<open><\<close>, the lazy \<open>.*?\<close> followed by \<open>>\<close> takes the characters up to the first
  \<open>>\<close>, and fails at a newline or at the end of the string. The result is the group
  \<open>grain_name\<close>; the match ends one character behind it.
\<close>

fun take_name :: "string \<Rightarrow> string option" where
  "take_name [] = None"
| "take_name (c # cs) =
     (if c = CHR ''>'' then Some []
      else if c = newline then None
      else (case take_name cs of
              None \<Rightarrow> None
            | Some name \<Rightarrow> Some (c # name)))"

text \<open>The \<open>grain_name\<close> groups of the matches, left to right, matches not overlapping.\<close>

function finditer_grain :: "string \<Rightarrow> string list" where
  "finditer_grain [] = []"
| "finditer_grain (c # cs) =
     (if c = CHR ''<'' then
        (case take_name cs of
           Some name \<Rightarrow> name # finditer_grain (drop (Suc (length name)) cs)
         | None \<Rightarrow> finditer_grain cs)
      else finditer_grain cs)"
  by pat_completeness auto
termination
  by (relation "measure length") auto

subsection \<open>Logging and the trace of a call\<close>

text \<open>
  A log record keeps the format string and its arguments, as \<open>logging\<close> does; the
  four format strings are those of the source.
\<close>

datatype log_entry = LogError string "pyval list" | LogDebug string "pyval list"

definition fmt_grain :: string where
  "fmt_grain = ''Unable to get minion '' @ [CHR 0x27] @ ''%s'' @ [CHR 0x27] @ '' grain: %s''"

definition fmt_url :: string where
  "fmt_url = ''Getting url: %s''"

definition fmt_query :: string where
  "fmt_query = ''Error on minion '' @ [CHR 0x27] @ ''%s'' @ [CHR 0x27] @ '' http query: %s''
     @ [newline] @ ''More Info:'' @ [newline]"

definition fmt_item :: string where
  "fmt_item = ''%s: %s''"

text \<open>
  What a call of \<open>ext_pillar\<close> does: its outcome, the log records it emits, the grain
  names it passes to \<open>grains.get\<close> and the URLs it passes to \<open>http.query\<close>, each in
  order.
\<close>

record run =
  outcome :: "pyval py"
  logged :: "log_entry list"
  lookups :: "string list"
  queries :: "string list"

type_synonym grains_get = "string \<Rightarrow> exn + grain"
type_synonym envelope = "(string \<times> pyval) list"
type_synonym http_query = "string \<Rightarrow> exn + envelope"

subsection \<open>\<open>ext_pillar\<close>\<close>

text \<open>
  The loop of lines 86 to 95 over the matches found in the URL as it stood before the
  loop. It either falls through with the URL it has built, or leaves the function.
\<close>

datatype flow = Next string | Leave "pyval py"

fun grain_loop ::
  "re_rest \<Rightarrow> grains_get \<Rightarrow> string \<Rightarrow> string list \<Rightarrow> string
     \<Rightarrow> flow \<times> log_entry list \<times> string list"
where
  "grain_loop rest grains minion_id [] url = (Next url, [], [])"
| "grain_loop rest grains minion_id (grain_name # matches) url =
     (case grains grain_name of
        Inl e \<Rightarrow> (Leave (Raised e), [], [grain_name])
      | Inr grain_value \<Rightarrow>
          if \<not> truthy grain_value then
            (Leave (Val (PDict [])),
             [LogError fmt_grain [PStr minion_id, PStr grain_name]], [grain_name])
          else
            (case re_sub rest (''<'' @ grain_name @ ''>'') (quote (py_str grain_value)) url of
               Raised e \<Rightarrow> (Leave (Raised e), [], [grain_name])
             | Val url' \<Rightarrow>
                 (case grain_loop rest grains minion_id matches url' of
                    (f, lg, lk) \<Rightarrow> (f, lg, grain_name # lk))))"

text \<open>Lines 105 and 106: one record for each key of the envelope.\<close>

fun log_items :: "envelope \<Rightarrow> string list \<Rightarrow> log_entry list \<times> exn option" where
  "log_items data [] = ([], None)"
| "log_items data (key # keys) =
     (case map_of data key of
        None \<Rightarrow> ([], Some KeyError)
      | Some v \<Rightarrow>
          (case log_items data keys of
             (es, x) \<Rightarrow> (LogError fmt_item [PStr key, v] # es, x)))"

text \<open>
  Lines 97 to 108: the debug record, the query, and the result: the value under \<open>dict\<close>
  when the envelope has this key, otherwise the error records and the empty mapping.
\<close>

definition fetch :: "http_query \<Rightarrow> string \<Rightarrow> string \<Rightarrow> pyval py \<times> log_entry list" where
  "fetch http minion_id url =
     (case http url of
        Inl e \<Rightarrow> (Raised e, [LogDebug fmt_url [PStr url]])
      | Inr data \<Rightarrow>
          (case map_of data ''dict'' of
             Some payload \<Rightarrow> (Val payload, [LogDebug fmt_url [PStr url]])
           | None \<Rightarrow>
               (case log_items data (map fst data) of
                  (es, x) \<Rightarrow>
                    ((case x of None \<Rightarrow> Val (PDict []) | Some e \<Rightarrow> Raised e),
                     [LogDebug fmt_url [PStr url],
                      LogError fmt_query [PStr minion_id, PStr url]] @ es))))"

text \<open>
  \<open>ext_pillar\<close>: line 79 substitutes the quoted minion id for \<open>%s\<close>; under
  \<open>with_grains\<close> the loop runs over the matches found in the result; unless the loop
  left the function, lines 97 to 108 query the URL it has built. The argument \<open>pillar\<close>
  is not used. The first argument is the part of \<open>re.sub\<close> outside the fragment.
\<close>

definition ext_pillar ::
  "re_rest \<Rightarrow> grains_get \<Rightarrow> http_query \<Rightarrow> string \<Rightarrow> pyval \<Rightarrow> string \<Rightarrow> bool \<Rightarrow> run"
where
  "ext_pillar rest grains http minion_id pillar url with_grains =
     (let url1 = str_replace ''%s'' (quote minion_id) url in
      case (if with_grains then grain_loop rest grains minion_id (finditer_grain url1) url1
            else (Next url1, [], [])) of
        (Leave r, lg, lk) \<Rightarrow>
          \<lparr>outcome = r, logged = lg, lookups = lk, queries = []\<rparr>
      | (Next url2, lg, lk) \<Rightarrow>
          (case fetch http minion_id url2 of
             (r, lg') \<Rightarrow>
               \<lparr>outcome = r, logged = lg @ lg', lookups = lk, queries = [url2]\<rparr>))"

subsection \<open>Notions used to state the properties\<close>

text \<open>A grain name with no character that is special in a regular expression.\<close>

definition plain :: "string \<Rightarrow> bool" where
  "plain n \<longleftrightarrow> (\<forall>c \<in> set n. \<not> is_special c)"

text \<open>\<open>sep.join(segs)\<close>: a template is its segments joined by the placeholder.\<close>

fun join :: "string \<Rightarrow> string list \<Rightarrow> string" where
  "join sep [] = []"
| "join sep [x] = x"
| "join sep (x # y # ys) = x @ sep @ join sep (y # ys)"

text \<open>\<open>s.split('%s')\<close>: the segments of a template between the occurrences of \<open>%s\<close>.\<close>

fun split_ps :: "string \<Rightarrow> string list" where
  "split_ps [] = [[]]"
| "split_ps [c] = [[c]]"
| "split_ps (c # d # cs) =
     (if c = CHR ''%'' \<and> d = CHR ''s'' then [] # split_ps cs
      else (case split_ps (d # cs) of
              [] \<Rightarrow> [[c]]
            | seg # segs \<Rightarrow> (c # seg) # segs))"

text \<open>
  The substitution the comment of lines 84 and 85 describes: for each name in turn, every
  literal occurrence of \<open><name>\<close> is replaced by the quoted text of its grain.
\<close>

fun substitute :: "grains_get \<Rightarrow> string list \<Rightarrow> string \<Rightarrow> string" where
  "substitute grains [] url = url"
| "substitute grains (name # names) url =
     (case grains name of
        Inl e \<Rightarrow> url
      | Inr v \<Rightarrow> substitute grains names (str_replace (''<'' @ name @ ''>'') (quote (py_str v)) url))"

definition is_mapping :: "pyval \<Rightarrow> bool" where
  "is_mapping v = (case v of PDict d \<Rightarrow> True | _ \<Rightarrow> False)"

text \<open>
  Collaborators of the concrete calls below. For the rest of \<open>re.sub\<close>, \<open>re_none\<close>
  raises \<open>re.error\<close>; it is used with calls that stay inside the fragment, where the
  rest plays no part. \<open>re_literal\<close> replaces the pattern as a text, which is what Python
  does with the pattern \<open><a{b>\<close> it is used with, a brace that opens no repetition
  being a literal character.
\<close>

definition re_none :: re_rest where
  "re_none pattern repl s = None"



definition grains_rewrite :: grains_get where
  "grains_rewrite n = (if n = ''a'' then Inr (GStr ''<other>'') else Inr (GStr ''w''))"

definition grains_other :: grains_get where
  "grains_other n = Inr (GStr ''<other>'')"

definition grains_v :: grains_get where
  "grains_v n = (if n = ''a'' then Inr (GStr ''v'') else Inr GNone)"

definition grains_plus :: grains_get where
  "grains_plus n = (if n = ''a+b'' then Inr (GStr ''v'') else Inr GNone)"

definition grains_paren :: grains_get where
  "grains_paren n = (if n = ''('' then Inr (GStr ''v'') else Inr GNone)"

definition http_empty :: http_query where
  "http_empty u = Inr []"





definition grains_w :: grains_get where
  "grains_w n = (if n = ''a'' then Inr (GStr ''v'') else Inr (GStr ''w''))"

definition http_other :: http_query where
  "http_other u = (if u = ''http://x/v'' then Inr [] else Inl (Collaborator ''ConnectionError''))"


text \<open>The definitions a concrete call is evaluated with.\<close>

lemmas eval_defs = ext_pillar_def Let_def fetch_def re_sub_def outside_def re_compile_def newline_def
  backslash_def is_quant_def is_special_def atom_of_def nullable_def may_skip_def quant_of_def
  is_ascii_def
  quote_def quote_char_def always_safe_def hex_digit_def

section \<open>Properties of the library models\<close>

subsection \<open>\<open>quote\<close>\<close>

lemma hex_digit_range: "hex_digit n \<in> set ''0123456789ABCDEF''"
proof -
  have "n mod 16 < length ''0123456789ABCDEF''" by simp
  then show ?thesis unfolding hex_digit_def by (rule nth_mem)
qed

lemma quote_char_chars:
  "x \<in> set (quote_char c) \<Longrightarrow> always_safe x \<or> x = CHR ''/'' \<or> x = CHR ''%''"
  using hex_digit_range[of "of_char c div 16"] hex_digit_range[of "of_char c"]
  by (auto simp: quote_char_def always_safe_def split: if_splits)

lemma quote_chars:
  "x \<in> set (quote s) \<Longrightarrow> always_safe x \<or> x = CHR ''/'' \<or> x = CHR ''%''"
  unfolding quote_def by (auto dest: quote_char_chars)

lemma quote_no_lt: "CHR ''<'' \<notin> set (quote s)"
  using quote_chars[of "CHR ''<''" s] by (auto simp: always_safe_def)

lemma quote_no_backslash: "backslash \<notin> set (quote s)"
  using quote_chars[of backslash s] by (auto simp: always_safe_def backslash_def)

subsection \<open>The scanner is the search for the pattern of line 81\<close>

lemma take_name_match:
  "rx_match [(Dot, LazyStar), (Lit CHR ''>'', Once)] cs
     = map_option (\<lambda>name. drop (Suc (length name)) cs) (take_name cs)"
  by (induction cs) (auto split: option.splits)

lemma take_name_text:
  "take_name cs = Some name \<Longrightarrow> take (Suc (length name)) cs = name @ ''>''"
  by (induction cs arbitrary: name) (auto split: if_splits option.splits)

lemma take_name_bound:
  "take_name cs = Some name \<Longrightarrow> length name < length cs"
  by (induction cs arbitrary: name) (auto split: if_splits option.splits)

lemma finditer_grain_regex:
  "finditer_grain s = map (\<lambda>m. butlast (tl m)) (finditer grain_pattern s)"
proof (induction s rule: finditer_grain.induct)
  case 1
  show ?case by simp
next
  case (2 c cs)
  show ?case
  proof (cases "c = CHR ''<''")
    case False
    with 2 show ?thesis by (simp add: grain_pattern_def)
  next
    case True
    show ?thesis
    proof (cases "take_name cs")
      case None
      with True 2 show ?thesis by (simp add: grain_pattern_def take_name_match)
    next
      case (Some name)
      have m: "rx_match grain_pattern (c # cs) = Some (drop (Suc (length name)) cs)"
        using True Some by (simp add: grain_pattern_def take_name_match)
      have len: "length (c # cs) - length (drop (Suc (length name)) cs) = Suc (Suc (length name))"
        using take_name_bound[OF Some] by simp
      have "take (Suc (Suc (length name))) (c # cs) = c # name @ ''>''"
        using take_name_text[OF Some] by simp
      with len have t: "butlast (tl (take (length (c # cs) - length (drop (Suc (length name)) cs)) (c # cs))) = name"
        by (simp add: butlast_append)
      have lt: "length (drop (Suc (length name)) cs) < length (c # cs)" by simp
      from "2.IH"(2)[OF True Some]
      have ih: "finditer_grain (drop (Suc (length name)) cs)
          = map (\<lambda>m. butlast (tl m)) (finditer grain_pattern (drop (Suc (length name)) cs))" .
      have "finditer grain_pattern (c # cs)
          = take (length (c # cs) - length (drop (Suc (length name)) cs)) (c # cs)
            # finditer grain_pattern (drop (Suc (length name)) cs)"
        using m lt by simp
      with t ih True Some show ?thesis by simp
    qed
  qed
qed

subsection \<open>Matches consume input; patterns without special characters\<close>

lemma rx_match_length: "rx_match p s = Some r \<Longrightarrow> length r \<le> length s"
  by (induction p s arbitrary: r rule: rx_match.induct)
     (fastforce split: if_splits option.splits)+

lemma nullable_Cons: "nullable ((a, q) # p) \<longleftrightarrow> may_skip q \<and> nullable p"
  by (auto simp: nullable_def)

lemma nullable_Nil: "nullable []"
  by (simp add: nullable_def)

lemma sub_scan_progress:
  "\<not> nullable p \<Longrightarrow> rx_match p s = Some r \<Longrightarrow> length r < length s"
proof (induction p s arbitrary: r rule: rx_match.induct)
  case (1 s)
  then show ?case by (simp add: nullable_Nil)
next
  case (3 a p c cs)
  then show ?case using rx_match_length[of p cs r] by (auto split: if_splits)
next
  case (5 a p c cs)
  then show ?case using rx_match_length[of "(a, Star) # p" cs r] by (auto split: if_splits)
next
  case (7 a p c cs)
  from "7.prems" have np: "\<not> nullable p" by (simp add: nullable_Cons may_skip_def)
  then have ns: "\<not> nullable ((a, Star) # p)" by (simp add: nullable_Cons)
  show ?case
  proof (cases "atom_ok a c")
    case False
    with 7 np show ?thesis by simp
  next
    case True
    show ?thesis
    proof (cases "rx_match ((a, Star) # p) cs")
      case None
      with True 7 np show ?thesis by simp
    next
      case (Some r')
      with True "7.prems" have "r = r'" by simp
      with "7.IH"(1)[OF True ns Some] show ?thesis by simp
    qed
  qed
next
  case (9 a p c cs)
  from "9.prems" have np: "\<not> nullable p" by (simp add: nullable_Cons may_skip_def)
  show ?case
  proof (cases "atom_ok a c")
    case False
    with 9 np show ?thesis by simp
  next
    case True
    show ?thesis
    proof (cases "rx_match p cs")
      case None
      with True 9 np show ?thesis by simp
    next
      case (Some r')
      with True "9.prems" have "r = r'" by simp
      with "9.IH"(1)[OF True np Some] show ?thesis by simp
    qed
  qed
next
  case (11 a p c cs)
  then show ?case using rx_match_length[of "(a, LazyStar) # p" cs r] by (auto split: if_splits)
next
  case (13 a p c cs)
  from "13.prems" have np: "\<not> nullable p" by (simp add: nullable_Cons may_skip_def)
  then have ns: "\<not> nullable ((a, LazyStar) # p)" by (simp add: nullable_Cons)
  show ?case
  proof (cases "rx_match p (c # cs)")
    case (Some r')
    with "13.prems" have "r = r'" by simp
    with "13.IH"(1)[OF np Some] show ?thesis by simp
  next
    case None
    with "13.prems" have ok: "atom_ok a c" and m: "rx_match ((a, LazyStar) # p) cs = Some r"
      by (auto split: if_splits)
    from "13.IH"(2)[OF None ok ns m] show ?thesis by simp
  qed
next
  case (15 a p c cs)
  from "15.prems" have np: "\<not> nullable p" by (simp add: nullable_Cons may_skip_def)
  show ?case
  proof (cases "rx_match p (c # cs)")
    case (Some r')
    with "15.prems" have "r = r'" by simp
    with "15.IH"(1)[OF np Some] show ?thesis by simp
  next
    case None
    with "15.prems" have ok: "atom_ok a c" and m: "rx_match p cs = Some r"
      by (auto split: if_splits)
    from "15.IH"(2)[OF None ok np m] show ?thesis by simp
  qed
qed (simp_all add: nullable_Cons may_skip_def)

lemma not_special_facts:
  "\<not> is_special c \<Longrightarrow> \<not> is_quant c \<and> c \<noteq> CHR ''.''"
  by (auto simp: is_quant_def is_special_def)

lemma parse_items_plain:
  "\<forall>c \<in> set p. \<not> is_special c \<Longrightarrow> parse_items p = Compiled (map (\<lambda>c. (Lit c, Once)) p)"
proof (induction p rule: parse_items.induct)
  case 1
  then show ?case by simp
next
  case (2 c)
  from "2.prems" have "\<not> is_special c" by simp
  then show ?case using not_special_facts[of c] by (simp add: atom_of_def)
next
  case (3 c q)
  from "3.prems" have sc: "\<not> is_special c" and sq: "\<not> is_special q" by simp_all
  from sc have c: "\<not> is_quant c" "c \<noteq> CHR ''.''" using not_special_facts[of c] by simp_all
  from sq have q: "\<not> is_quant q" "q \<noteq> CHR ''.''" using not_special_facts[of q] by simp_all
  from c q sc sq show ?case by (simp add: atom_of_def)
next
  case (4 c q l cs)
  from "4.prems" have sc: "\<not> is_special c" and sq: "\<not> is_special q"
    and rest: "\<forall>x \<in> set (q # l # cs). \<not> is_special x" by simp_all
  from sc have c: "\<not> is_quant c" "c \<noteq> CHR ''.''" using not_special_facts[of c] by simp_all
  from sq have q: "\<not> is_quant q" using not_special_facts[of q] by simp
  have "parse_items (q # l # cs) = Compiled (map (\<lambda>c. (Lit c, Once)) (q # l # cs))"
    using "4.IH"(3)[OF c(1) _ q rest] sc by simp
  with c q sc show ?case by (simp add: atom_of_def)
qed

lemma rx_match_lits:
  "rx_match (map (\<lambda>c. (Lit c, Once)) p) s = (if prefix p s then Some (drop (length p) s) else None)"
proof (induction p arbitrary: s)
  case Nil
  then show ?case by simp
next
  case (Cons a p)
  then show ?case by (cases s) auto
qed

lemma sub_scan_lits:
  "p \<noteq> [] \<Longrightarrow> sub_scan (map (\<lambda>c. (Lit c, Once)) p) repl s = str_replace p repl s"
proof (induction s rule: length_induct)
  case (1 s)
  show ?case
  proof (cases s)
    case Nil
    with 1 show ?thesis by simp
  next
    case (Cons c cs)
    show ?thesis
    proof (cases "prefix p (c # cs)")
      case True
      have len: "length (drop (length p) (c # cs)) < length (c # cs)"
        using 1(2) by (cases p) auto
      with 1 Cons have "sub_scan (map (\<lambda>c. (Lit c, Once)) p) repl (drop (length p) (c # cs))
          = str_replace p repl (drop (length p) (c # cs))" by blast
      with True len 1(2) Cons show ?thesis by (simp add: rx_match_lits)
    next
      case False
      from 1 Cons have "sub_scan (map (\<lambda>c. (Lit c, Once)) p) repl cs = str_replace p repl cs"
        by simp
      with False 1(2) Cons show ?thesis by (simp add: rx_match_lits)
    qed
  qed
qed

lemma re_sub_plain:
  assumes "plain n" and "backslash \<notin> set repl"
  shows "re_sub rest (''<'' @ n @ ''>'') repl s = Val (str_replace (''<'' @ n @ ''>'') repl s)"
proof -
  let ?p = "''<'' @ n @ ''>''"
  have sp: "\<forall>c \<in> set ?p. \<not> is_special c"
    using assms(1) by (auto simp: plain_def is_special_def backslash_def)
  then have paren: "CHR ''('' \<notin> set ?p" by (auto simp: is_special_def)
  have comp: "re_compile ?p = Compiled (map (\<lambda>c. (Lit c, Once)) ?p)"
    unfolding re_compile_def using parse_items_plain[OF sp] paren by simp
  have nn: "\<not> nullable (map (\<lambda>c. (Lit c, Once)) ?p)"
    by (simp add: nullable_def may_skip_def)
  have nd: "Dot \<notin> fst ` set (map (\<lambda>c. (Lit c, Once)) ?p)"
    by auto
  show ?thesis
    unfolding re_sub_def comp using nn nd assms(2) sub_scan_lits[of ?p repl s]
    by simp
qed

section \<open>Properties of \<open>ext_pillar\<close>\<close>

subsection \<open>The envelope loop and the grain loop\<close>

lemma log_items_keys:
  "set ks \<subseteq> fst ` set data \<Longrightarrow>
   log_items data ks = (map (\<lambda>k. LogError fmt_item [PStr k, the (map_of data k)]) ks, None)"
proof (induction ks)
  case Nil
  then show ?case by simp
next
  case (Cons k ks)
  then obtain v where "map_of data k = Some v"
    by (cases "map_of data k") (auto simp: map_of_eq_None_iff)
  with Cons show ?case by simp
qed

lemma log_items_distinct:
  assumes "distinct (map fst data)"
  shows "log_items data (map fst data) = (map (\<lambda>(k, v). LogError fmt_item [PStr k, v]) data, None)"
proof -
  have "map (\<lambda>k. LogError fmt_item [PStr k, the (map_of data k)]) (map fst data)
        = map (\<lambda>(k, v). LogError fmt_item [PStr k, v]) data"
    using assms by (auto simp: map_of_eq_Some_iff[OF assms])
  then show ?thesis using log_items_keys[of "map fst data" data] by simp
qed

lemma grain_loop_prefix: "grain_loop rx g m ns u = (f, lg, lk) \<Longrightarrow> prefix lk ns"
  by (induction ns arbitrary: u lk) (auto split: sum.splits py.splits prod.splits if_splits)

lemma grain_loop_Next:
  "grain_loop rx g m ns u = (Next u', lg, lk) \<Longrightarrow> lg = [] \<and> lk = ns"
  by (induction ns arbitrary: u lk) (auto split: sum.splits py.splits prod.splits if_splits)

text \<open>The loop leaves at the first name in one of three ways, or takes a turn.\<close>

lemma grain_loop_Cons_cases:
  assumes "grain_loop rx g m (a # ns) u = (f, lg, lk)"
  obtains (raised) e where "g a = Inl e" "f = Leave (Raised e)" "lg = []" "lk = [a]"
  | (falsy) w where "g a = Inr w" "\<not> truthy w" "f = Leave (Val (PDict []))"
      "lg = [LogError fmt_grain [PStr m, PStr a]]" "lk = [a]"
  | (bad) w e where "g a = Inr w" "truthy w"
      "re_sub rx (''<'' @ a @ ''>'') (quote (py_str w)) u = Raised e"
      "f = Leave (Raised e)" "lg = []" "lk = [a]"
  | (turn) w u' lk' where "g a = Inr w" "truthy w"
      "re_sub rx (''<'' @ a @ ''>'') (quote (py_str w)) u = Val u'"
      "grain_loop rx g m ns u' = (f, lg, lk')" "lk = a # lk'"
proof (cases "g a")
  case (Inl e)
  with assms raised show ?thesis by auto
next
  case (Inr w)
  show ?thesis
  proof (cases "truthy w")
    case False
    with Inr assms falsy show ?thesis by auto
  next
    case True
    show ?thesis
    proof (cases "re_sub rx (''<'' @ a @ ''>'') (quote (py_str w)) u")
      case (Raised e)
      with True Inr assms bad show ?thesis by auto
    next
      case (Val u')
      obtain f' lg' lk' where r: "grain_loop rx g m ns u' = (f', lg', lk')"
        by (cases "grain_loop rx g m ns u'") auto
      with Val True Inr assms have "f = f'" "lg = lg'" "lk = a # lk'" by auto
      with Val True Inr r turn show ?thesis by auto
    qed
  qed
qed

lemma grain_loop_falsy:
  "grain_loop rx g m ns u = (f, lg, lk) \<Longrightarrow> n \<in> set lk \<Longrightarrow> g n = Inr v \<Longrightarrow> \<not> truthy v \<Longrightarrow>
     f = Leave (Val (PDict [])) \<and> lg = [LogError fmt_grain [PStr m, PStr n]]
     \<and> (\<exists>before. lk = before @ [n] \<and> n \<notin> set before)"
proof (induction ns arbitrary: u f lg lk)
  case Nil
  then show ?case by simp
next
  case (Cons a ns)
  from Cons.prems(1) show ?case
  proof (cases rule: grain_loop_Cons_cases)
    case (raised e)
    with Cons.prems show ?thesis by auto
  next
    case (falsy w)
    with Cons.prems show ?thesis by auto
  next
    case (bad w e)
    with Cons.prems show ?thesis by auto
  next
    case (turn w u' lk')
    with Cons.prems have an: "a \<noteq> n" by auto
    with turn Cons.prems have "n \<in> set lk'" by auto
    from Cons.IH[OF turn(4) this Cons.prems(3,4)] turn an show ?thesis by auto
  qed
qed

subsection \<open>What a call that reaches the HTTP query does\<close>

lemma ext_pillar_query:
  assumes "queries (ext_pillar rx g h m p url wg) = [u]"
  shows "outcome (ext_pillar rx g h m p url wg) = fst (fetch h m u)
       \<and> logged (ext_pillar rx g h m p url wg) = snd (fetch h m u)
       \<and> lookups (ext_pillar rx g h m p url wg)
           = (if wg then finditer_grain (str_replace ''%s'' (quote m) url) else [])"
proof (cases wg)
  case False
  with assms show ?thesis
    by (auto simp: ext_pillar_def Let_def split: prod.splits)
next
  case True
  let ?u1 = "str_replace ''%s'' (quote m) url"
  obtain f lg lk where loop: "grain_loop rx g m (finditer_grain ?u1) ?u1 = (f, lg, lk)"
    by (cases "grain_loop rx g m (finditer_grain ?u1) ?u1") auto
  show ?thesis
  proof (cases f)
    case (Leave r)
    with True loop assms show ?thesis by (simp add: ext_pillar_def Let_def)
  next
    case (Next u2)
    with loop have "lg = []" "lk = finditer_grain ?u1" using grain_loop_Next by blast+
    with True loop Next assms show ?thesis
      by (auto simp: ext_pillar_def Let_def split: prod.splits)
  qed
qed

lemma fetch_dict:
  "h u = Inr data \<Longrightarrow> map_of data ''dict'' = Some v \<Longrightarrow>
   fetch h m u = (Val v, [LogDebug fmt_url [PStr u]])"
  by (simp add: fetch_def)

lemma fetch_no_dict:
  "h u = Inr data \<Longrightarrow> map_of data ''dict'' = None \<Longrightarrow> distinct (map fst data) \<Longrightarrow>
   fetch h m u = (Val (PDict []),
     [LogDebug fmt_url [PStr u], LogError fmt_query [PStr m, PStr u]]
       @ map (\<lambda>(k, v). LogError fmt_item [PStr k, v]) data)"
  by (simp add: fetch_def log_items_distinct)


subsection \<open>\<open>str.replace\<close> of the placeholder \<open>%s\<close>\<close>

lemma str_replace_skip:
  "old \<noteq> [] \<Longrightarrow> \<not> prefix old (c # cs) \<Longrightarrow>
   str_replace old new (c # cs) = c # str_replace old new cs"
  by simp

lemma str_replace_segment:
  "\<not> sublist ''%s'' seg \<Longrightarrow>
   str_replace ''%s'' new (seg @ ''%s'' @ rest) = seg @ new @ str_replace ''%s'' new rest"
proof (induction seg)
  case Nil
  then show ?case by simp
next
  case (Cons c seg)
  from Cons.prems have np: "\<not> prefix ''%s'' (c # seg)" and ns: "\<not> sublist ''%s'' seg"
    by (auto simp: sublist_Cons_right)
  have "\<not> prefix ''%s'' (c # (seg @ ''%s'' @ rest))"
    using np by (cases seg) auto
  then have "str_replace ''%s'' new (c # (seg @ ''%s'' @ rest))
      = c # str_replace ''%s'' new (seg @ ''%s'' @ rest)"
    by (rule str_replace_skip[rotated]) simp
  with Cons.IH[OF ns] show ?case by simp
qed

lemma str_replace_absent:
  "\<not> sublist ''%s'' seg \<Longrightarrow> str_replace ''%s'' new seg = seg"
proof (induction seg)
  case Nil
  then show ?case by simp
next
  case (Cons c seg)
  from Cons.prems have np: "\<not> prefix ''%s'' (c # seg)" and ns: "\<not> sublist ''%s'' seg"
    by (auto simp: sublist_Cons_right)
  have "str_replace ''%s'' new (c # seg) = c # str_replace ''%s'' new seg"
    using np by (rule str_replace_skip[rotated]) simp
  with Cons.IH[OF ns] show ?case by simp
qed

lemma str_replace_join:
  "\<forall>seg \<in> set segs. \<not> sublist ''%s'' seg \<Longrightarrow>
   str_replace ''%s'' new (join ''%s'' segs) = join new segs"
proof (induction segs rule: induct_list012)
  case 1
  then show ?case by simp
next
  case (2 x)
  then show ?case by (simp add: str_replace_absent)
next
  case (3 x y ys)
  then show ?case using str_replace_segment[of x new "join ''%s'' (y # ys)"] by simp
qed

lemma split_ps_nonempty: "split_ps s \<noteq> []"
  by (induction s rule: split_ps.induct) (auto split: list.splits)

lemma join_Cons: "segs \<noteq> [] \<Longrightarrow> join sep (x # segs) = x @ sep @ join sep segs"
  by (cases segs) auto

lemma join_Cons_char: "join sep ((c # seg) # segs) = c # join sep (seg # segs)"
  by (cases segs) auto

lemma join_split_ps: "join ''%s'' (split_ps s) = s"
proof (induction s rule: split_ps.induct)
  case 1
  show ?case by simp
next
  case (2 c)
  show ?case by simp
next
  case (3 c d cs)
  show ?case
  proof (cases "c = CHR ''%'' \<and> d = CHR ''s''")
    case True
    with 3 show ?thesis by (simp add: join_Cons split_ps_nonempty)
  next
    case False
    obtain seg segs where sp: "split_ps (d # cs) = seg # segs"
      using split_ps_nonempty[of "d # cs"] by (cases "split_ps (d # cs)") auto
    from False have "split_ps (c # d # cs) = (c # seg) # segs"
      by (simp only: split_ps.simps sp list.case if_False)
    moreover from 3(2)[OF False] sp have "join ''%s'' (seg # segs) = d # cs" by simp
    ultimately show ?thesis by (simp add: join_Cons_char)
  qed
qed

lemma split_ps_first:
  "split_ps (d # cs) = seg # segs \<Longrightarrow> seg = [] \<or> hd seg = d"
  by (cases cs) (auto split: if_splits list.splits)

lemma split_ps_segments: "seg \<in> set (split_ps s) \<Longrightarrow> \<not> sublist ''%s'' seg"
proof (induction s arbitrary: seg rule: split_ps.induct)
  case 1
  then show ?case by simp
next
  case (2 c)
  then show ?case by (auto simp: sublist_Cons_right)
next
  case (3 c d cs)
  show ?case
  proof (cases "c = CHR ''%'' \<and> d = CHR ''s''")
    case True
    with 3 show ?thesis by auto
  next
    case False
    obtain x xs where sp: "split_ps (d # cs) = x # xs"
      using split_ps_nonempty[of "d # cs"] by (cases "split_ps (d # cs)") auto
    from False have "split_ps (c # d # cs) = (c # x) # xs"
      by (simp only: split_ps.simps sp list.case if_False)
    with "3.prems" have mem: "seg = c # x \<or> seg \<in> set xs" by auto
    show ?thesis
    proof (cases "seg \<in> set xs")
      case True
      with 3(2)[OF False] sp show ?thesis by simp
    next
      case False': False
      with mem have seg: "seg = c # x" by simp
      have nx: "\<not> sublist ''%s'' x" using 3(2)[OF False, of x] sp by simp
      have "\<not> prefix ''%s'' (c # x)"
        using split_ps_first[OF sp] False by (cases x) auto
      with nx seg show ?thesis by (simp add: sublist_Cons_right)
    qed
  qed
qed

lemma str_replace_split: "str_replace ''%s'' new s = join new (split_ps s)"
  using str_replace_join[of "split_ps s" new] split_ps_segments[of _ s] join_split_ps[of s]
  by auto

subsection \<open>Which lookups and which query a call makes\<close>

lemma finditer_grain_none: "CHR ''<'' \<notin> set s \<Longrightarrow> finditer_grain s = []"
  by (induction s) auto

lemma ext_pillar_lookups_prefix:
  "prefix (lookups (ext_pillar rx g h m p url wg)) (finditer_grain (str_replace ''%s'' (quote m) url))"
proof (cases wg)
  case False
  then show ?thesis by (auto simp: ext_pillar_def Let_def split: prod.splits)
next
  case True
  let ?u1 = "str_replace ''%s'' (quote m) url"
  obtain f lg lk where loop: "grain_loop rx g m (finditer_grain ?u1) ?u1 = (f, lg, lk)"
    by (cases "grain_loop rx g m (finditer_grain ?u1) ?u1") auto
  have "lookups (ext_pillar rx g h m p url wg) = lk"
    using True loop by (cases f) (auto simp: ext_pillar_def Let_def split: prod.splits)
  with grain_loop_prefix[OF loop] show ?thesis by simp
qed

lemma ext_pillar_no_placeholder:
  assumes "\<not> wg \<or> finditer_grain (str_replace ''%s'' (quote m) url) = []"
  shows "queries (ext_pillar rx g h m p url wg) = [str_replace ''%s'' (quote m) url]"
  using assms by (auto simp: ext_pillar_def Let_def split: prod.splits)

subsection \<open>The grain loop: absorbed failures, exceptions, dependence on the collaborator\<close>


lemma grain_loop_cong:
  "grain_loop rx g m ns u = (f, lg, lk) \<Longrightarrow> \<forall>n \<in> set lk. g' n = g n \<Longrightarrow>
   grain_loop rx g' m ns u = (f, lg, lk)"
proof (induction ns arbitrary: u f lg lk)
  case Nil
  then show ?case by simp
next
  case (Cons a ns)
  from Cons.prems(1) show ?case
  proof (cases rule: grain_loop_Cons_cases)
    case (raised e)
    with Cons.prems(2) show ?thesis by simp
  next
    case (falsy w)
    with Cons.prems(2) show ?thesis by simp
  next
    case (bad w e)
    with Cons.prems(2) show ?thesis by simp
  next
    case (turn w u' lk')
    with Cons.prems(2) have ga: "g' a = g a" and rest: "\<forall>n \<in> set lk'. g' n = g n" by simp_all
    from Cons.IH[OF turn(4) rest] turn ga show ?thesis by simp
  qed
qed

lemma fetch_cong: "h' u = h u \<Longrightarrow> fetch h' m u = fetch h m u"
  by (simp add: fetch_def)

subsection \<open>The call in terms of the loop; the loop on a list of names\<close>

lemma ext_pillar_loop:
  assumes "grain_loop rx g m (finditer_grain (str_replace ''%s'' (quote m) url))
             (str_replace ''%s'' (quote m) url) = (f, lg, lk)"
  shows "ext_pillar rx g h m p url True
       = (case f of
            Leave r \<Rightarrow> \<lparr>outcome = r, logged = lg, lookups = lk, queries = []\<rparr>
          | Next u \<Rightarrow> \<lparr>outcome = fst (fetch h m u), logged = lg @ snd (fetch h m u),
                        lookups = lk, queries = [u]\<rparr>)"
  using assms by (cases f) (simp_all add: ext_pillar_def Let_def split: prod.splits)

lemma grain_loop_append:
  assumes "grain_loop rx g m before u = (Next u', lg, lk)"
  shows "grain_loop rx g m (before @ after) u
       = (case grain_loop rx g m after u' of (f, lg', lk') \<Rightarrow> (f, lg', before @ lk'))"
  using assms
proof (induction before arbitrary: u lg lk)
  case Nil
  then show ?case by simp
next
  case (Cons a before)
  from Cons.prems show ?case
  proof (cases rule: grain_loop_Cons_cases)
    case (turn w u1 lk1)
    from Cons.IH[OF turn(4)] turn(1,2,3) show ?thesis
      by (simp split: prod.splits)
  qed simp_all
qed

lemma grain_loop_passes:
  assumes "\<forall>x \<in> set before. \<exists>w. g x = Inr w \<and> truthy w
             \<and> (\<forall>s. \<exists>r. re_sub rx (''<'' @ x @ ''>'') (quote (py_str w)) s = Val r)"
  shows "\<exists>u'. grain_loop rx g m before u = (Next u', [], before)"
  using assms
proof (induction before arbitrary: u)
  case Nil
  then show ?case by simp
next
  case (Cons a before)
  then obtain w where w: "g a = Inr w" "truthy w"
    and s: "\<forall>s. \<exists>r. re_sub rx (''<'' @ a @ ''>'') (quote (py_str w)) s = Val r" by auto
  from s obtain u1 where u1: "re_sub rx (''<'' @ a @ ''>'') (quote (py_str w)) u = Val u1" by blast
  from Cons.prems have "\<forall>x \<in> set before. \<exists>w. g x = Inr w \<and> truthy w
             \<and> (\<forall>s. \<exists>r. re_sub rx (''<'' @ x @ ''>'') (quote (py_str w)) s = Val r)" by simp
  from Cons.IH[OF this, of u1] obtain u' where "grain_loop rx g m before u1 = (Next u', [], before)" ..
  with w u1 show ?case by simp
qed

lemma grain_loop_plain:
  assumes "\<forall>n \<in> set ns. plain n \<and> (\<exists>w. g n = Inr w \<and> truthy w)"
  shows "grain_loop rx g m ns u = (Next (substitute g ns u), [], ns)"
  using assms
proof (induction ns arbitrary: u)
  case Nil
  then show ?case by simp
next
  case (Cons a ns)
  then obtain w where pa: "plain a" and w: "g a = Inr w" "truthy w" by auto
  have sub: "re_sub rx (''<'' @ a @ ''>'') (quote (py_str w)) u
      = Val (str_replace (''<'' @ a @ ''>'') (quote (py_str w)) u)"
    using re_sub_plain[OF pa quote_no_backslash] .
  from Cons.prems have "\<forall>n \<in> set ns. plain n \<and> (\<exists>w. g n = Inr w \<and> truthy w)" by simp
  from Cons.IH[OF this, of "str_replace (''<'' @ a @ ''>'') (quote (py_str w)) u"] w sub
  show ?case by simp
qed

lemma plain_passes:
  "plain x \<Longrightarrow> \<exists>r. re_sub rx (''<'' @ x @ ''>'') (quote t) s = Val r"
  using re_sub_plain[OF _ quote_no_backslash, of x rx t s] by simp

lemma str_replace_contains:
  "old \<noteq> [] \<Longrightarrow> sublist old s \<Longrightarrow> sublist new (str_replace old new s)"
proof (induction s rule: length_induct)
  case (1 s)
  show ?case
  proof (cases s)
    case Nil
    with 1 show ?thesis by simp
  next
    case (Cons c cs)
    show ?thesis
    proof (cases "prefix old (c # cs)")
      case True
      with 1(2) Cons show ?thesis by simp
    next
      case False
      with 1(3) Cons have "sublist old cs" by (simp add: sublist_Cons_right)
      with 1 Cons have "sublist new (str_replace old new cs)" by simp
      then have "sublist new (c # str_replace old new cs)"
        by (simp add: sublist_Cons_right)
      with False 1(2) Cons show ?thesis by simp
    qed
  qed
qed

lemma take_name_prefix:
  "take_name cs = Some name \<Longrightarrow> prefix (name @ ''>'') cs"
  by (induction cs arbitrary: name) (auto split: if_splits option.splits)

lemma finditer_grain_occurs:
  "n \<in> set (finditer_grain s) \<Longrightarrow> sublist (''<'' @ n @ ''>'') s"
proof (induction s rule: finditer_grain.induct)
  case 1
  then show ?case by simp
next
  case (2 c cs)
  show ?case
  proof (cases "c = CHR ''<''")
    case False
    with 2 have "sublist (''<'' @ n @ ''>'') cs" by simp
    then show ?thesis by (simp add: sublist_Cons_right)
  next
    case True
    show ?thesis
    proof (cases "take_name cs")
      case None
      with True 2 have "sublist (''<'' @ n @ ''>'') cs" by simp
      then show ?thesis by (simp add: sublist_Cons_right)
    next
      case (Some name)
      show ?thesis
      proof (cases "n = name")
        case True': True
        from take_name_prefix[OF Some] True True' have "prefix (''<'' @ n @ ''>'') (c # cs)" by simp
        then show ?thesis by (rule prefix_imp_sublist)
      next
        case False
        with True Some "2.prems" have "n \<in> set (finditer_grain (drop (Suc (length name)) cs))" by simp
        from "2.IH"(2)[OF True Some this]
        have "sublist (''<'' @ n @ ''>'') (drop (Suc (length name)) cs)" .
        then have "sublist (''<'' @ n @ ''>'') cs"
          using sublist_drop[of "Suc (length name)" cs] sublist_order.order_trans by blast
        then show ?thesis by (simp add: sublist_Cons_right)
      qed
    qed
  qed
qed





section \<open>The claims\<close>

text \<open>
  C6. If the HTTP query returns an envelope with a dictionary payload under the key
  \<open>dict\<close>, \<open>ext_pillar\<close> returns that payload as it is, keys and values unchanged:
  whenever the call queries a URL \<open>u\<close> and the collaborator answers with an envelope
  holding the dictionary \<open>d\<close> under \<open>dict\<close>, the outcome is the value \<open>d\<close>. For the
  envelope \<open>{"dict": {"role": "web"}}\<close> the result is \<open>{"role": "web"}\<close>.
\<close>

theorem dict_payload_returned:
  assumes "queries (ext_pillar rx g h m p url wg) = [u]"
    and "h u = Inr data"
    and "map_of data ''dict'' = Some (PDict d)"
  shows "outcome (ext_pillar rx g h m p url wg) = Val (PDict d)"
  using ext_pillar_query[OF assms(1)] fetch_dict[of h u data "PDict d" m] assms(2,3) by simp

theorem dict_payload_returned_witness:
  "queries (ext_pillar re_none (\<lambda>n. Inr GNone) (\<lambda>u. Inr [(''dict'', PDict [(''role'', PStr ''web'')])])
       ''minion'' PNone ''http://x/%s'' False) = [''http://x/minion'']
   \<and> outcome (ext_pillar re_none (\<lambda>n. Inr GNone) (\<lambda>u. Inr [(''dict'', PDict [(''role'', PStr ''web'')])])
       ''minion'' PNone ''http://x/%s'' False) = Val (PDict [(''role'', PStr ''web'')])"
proof -
  let ?h = "\<lambda>u::string. Inr [(''dict'', PDict [(''role'', PStr ''web'')])] :: exn + envelope"
  let ?r = "ext_pillar re_none (\<lambda>n. Inr GNone) ?h ''minion'' PNone ''http://x/%s'' False"
  have q: "queries ?r = [''http://x/minion'']"
    by (simp add: ext_pillar_def Let_def quote_def quote_char_def always_safe_def split: prod.splits)
  have "outcome ?r = Val (PDict [(''role'', PStr ''web'')])"
    by (rule dict_payload_returned[OF q, of "[(''dict'', PDict [(''role'', PStr ''web'')])]"]) simp_all
  with q show ?thesis by simp
qed

text \<open>
  C9. The success check is presence only: if the envelope has the key \<open>dict\<close>,
  \<open>ext_pillar\<close> returns the value stored under it whatever its type. A value that is not
  a mapping (a string, a list, \<open>None\<close>) is returned as it is, so the caller receives a
  mapping only if the HTTP collaborator puts one there.
\<close>

theorem dict_value_any_type:
  assumes "queries (ext_pillar rx g h m p url wg) = [u]"
    and "h u = Inr data"
    and "map_of data ''dict'' = Some v"
  shows "outcome (ext_pillar rx g h m p url wg) = Val v
       \<and> (\<not> is_mapping v \<longrightarrow> (\<forall>w. outcome (ext_pillar rx g h m p url wg) = Val w \<longrightarrow> \<not> is_mapping w))"
  using ext_pillar_query[OF assms(1)] fetch_dict[of h u data v m] assms(2,3) by simp

theorem dict_value_any_type_witness:
  "queries (ext_pillar re_none (\<lambda>n. Inr GNone) (\<lambda>u. Inr [(''dict'', PStr ''oops'')])
       ''minion'' PNone ''http://x/%s'' False) = [''http://x/minion'']
   \<and> outcome (ext_pillar re_none (\<lambda>n. Inr GNone) (\<lambda>u. Inr [(''dict'', PStr ''oops'')])
       ''minion'' PNone ''http://x/%s'' False) = Val (PStr ''oops'')
   \<and> \<not> is_mapping (PStr ''oops'')"
proof -
  let ?h = "\<lambda>u::string. Inr [(''dict'', PStr ''oops'')] :: exn + envelope"
  let ?r = "ext_pillar re_none (\<lambda>n. Inr GNone) ?h ''minion'' PNone ''http://x/%s'' False"
  have q: "queries ?r = [''http://x/minion'']"
    by (simp add: ext_pillar_def Let_def quote_def quote_char_def always_safe_def split: prod.splits)
  have "outcome ?r = Val (PStr ''oops'')"
    using dict_value_any_type[OF q, of "[(''dict'', PStr ''oops'')]" "PStr ''oops''"] by simp
  with q show ?thesis by (simp add: is_mapping_def)
qed

text \<open>
  C7. If the envelope has no key \<open>dict\<close>, \<open>ext_pillar\<close> returns the empty mapping. After
  the debug record of the URL, which every call that reaches the query emits, it logs one
  error record with the minion and the resolved URL and then one error record for each
  key/value pair of the envelope, in the envelope's order. The envelope is not inspected
  otherwise: a network failure, an HTTP error status and a YAML failure all take this path.
\<close>

theorem no_dict_logged:
  assumes "queries (ext_pillar rx g h m p url wg) = [u]"
    and "h u = Inr data"
    and "map_of data ''dict'' = None"
    and "distinct (map fst data)"
  shows "outcome (ext_pillar rx g h m p url wg) = Val (PDict [])
       \<and> logged (ext_pillar rx g h m p url wg)
           = [LogDebug fmt_url [PStr u], LogError fmt_query [PStr m, PStr u]]
             @ map (\<lambda>(k, v). LogError fmt_item [PStr k, v]) data"
  using ext_pillar_query[OF assms(1)] fetch_no_dict[of h u data m] assms(2,3,4) by simp

theorem no_dict_logged_witness:
  "queries (ext_pillar re_none (\<lambda>n. Inr GNone) (\<lambda>u. Inr [(''error'', PStr ''timeout'')])
       ''minion'' PNone ''http://x/%s'' False) = [''http://x/minion'']
   \<and> distinct (map fst [(''error'', PStr ''timeout'')])
   \<and> outcome (ext_pillar re_none (\<lambda>n. Inr GNone) (\<lambda>u. Inr [(''error'', PStr ''timeout'')])
       ''minion'' PNone ''http://x/%s'' False) = Val (PDict [])
   \<and> logged (ext_pillar re_none (\<lambda>n. Inr GNone) (\<lambda>u. Inr [(''error'', PStr ''timeout'')])
       ''minion'' PNone ''http://x/%s'' False)
      = [LogDebug fmt_url [PStr ''http://x/minion''],
         LogError fmt_query [PStr ''minion'', PStr ''http://x/minion''],
         LogError fmt_item [PStr ''error'', PStr ''timeout'']]"
proof -
  let ?h = "\<lambda>u::string. Inr [(''error'', PStr ''timeout'')] :: exn + envelope"
  let ?r = "ext_pillar re_none (\<lambda>n. Inr GNone) ?h ''minion'' PNone ''http://x/%s'' False"
  have q: "queries ?r = [''http://x/minion'']"
    by (simp add: ext_pillar_def Let_def quote_def quote_char_def always_safe_def split: prod.splits)
  show ?thesis
    using q no_dict_logged[OF q, of "[(''error'', PStr ''timeout'')]"] by simp
qed

lemma falsy_values:
  "\<not> truthy GNone \<and> \<not> truthy (GBool False) \<and> \<not> truthy (GInt 0) \<and> \<not> truthy (GStr [])
   \<and> \<not> truthy (GOther False s)"
  by simp

text \<open>
  C3. If \<open>with_grains\<close> is true and the lookup of a placeholder yields an absent or falsy
  value, \<open>ext_pillar\<close> fails at once on that placeholder. In terms of the arguments:
  when the placeholders before it have truthy grains and line 95 returns for them, the
  call looks up those names and this one and no further name, logs one error record
  naming the minion and the grain and nothing else, makes no HTTP query and returns the
  empty mapping. In terms of the call: a falsy lookup is the last lookup of the call and
  the first for that name, with the same log, no query and the same result. \<open>None\<close>,
  \<open>False\<close>, zero and the empty string are falsy (lemma \<open>falsy_values\<close>).
\<close>

theorem falsy_grain_fails:
  "(wg \<and> finditer_grain (str_replace ''%s'' (quote m) url) = before @ n # after
      \<and> (\<forall>x \<in> set before. \<exists>w. g x = Inr w \<and> truthy w
            \<and> (\<forall>s. \<exists>r. re_sub rx (''<'' @ x @ ''>'') (quote (py_str w)) s = Val r))
      \<and> g n = Inr v \<and> \<not> truthy v
    \<longrightarrow> ext_pillar rx g h m p url wg
          = \<lparr>outcome = Val (PDict []), logged = [LogError fmt_grain [PStr m, PStr n]],
             lookups = before @ [n], queries = []\<rparr>)
   \<and> (n \<in> set (lookups (ext_pillar rx g h m p url wg)) \<and> g n = Inr v \<and> \<not> truthy v
    \<longrightarrow> outcome (ext_pillar rx g h m p url wg) = Val (PDict [])
        \<and> logged (ext_pillar rx g h m p url wg) = [LogError fmt_grain [PStr m, PStr n]]
        \<and> queries (ext_pillar rx g h m p url wg) = []
        \<and> (\<exists>before. lookups (ext_pillar rx g h m p url wg) = before @ [n] \<and> n \<notin> set before))"
proof (intro conjI impI)
  let ?u1 = "str_replace ''%s'' (quote m) url"
  assume a: "wg \<and> finditer_grain ?u1 = before @ n # after
      \<and> (\<forall>x \<in> set before. \<exists>w. g x = Inr w \<and> truthy w
            \<and> (\<forall>s. \<exists>r. re_sub rx (''<'' @ x @ ''>'') (quote (py_str w)) s = Val r))
      \<and> g n = Inr v \<and> \<not> truthy v"
  then have wg: wg and names: "finditer_grain ?u1 = before @ n # after"
    and pass: "\<forall>x \<in> set before. \<exists>w. g x = Inr w \<and> truthy w
            \<and> (\<forall>s. \<exists>r. re_sub rx (''<'' @ x @ ''>'') (quote (py_str w)) s = Val r)"
    and gn: "g n = Inr v" "\<not> truthy v" by simp_all
  from grain_loop_passes[OF pass, of m ?u1]
  obtain u' where pre: "grain_loop rx g m before ?u1 = (Next u', [], before)" ..
  have "grain_loop rx g m (n # after) u'
      = (Leave (Val (PDict [])), [LogError fmt_grain [PStr m, PStr n]], [n])"
    using gn by simp
  with grain_loop_append[OF pre, of "n # after"]
  have "grain_loop rx g m (finditer_grain ?u1) ?u1
      = (Leave (Val (PDict [])), [LogError fmt_grain [PStr m, PStr n]], before @ [n])"
    unfolding names by simp
  from ext_pillar_loop[OF this, of h p] wg
  show "ext_pillar rx g h m p url wg
          = \<lparr>outcome = Val (PDict []), logged = [LogError fmt_grain [PStr m, PStr n]],
             lookups = before @ [n], queries = []\<rparr>" by simp
next
  let ?u1 = "str_replace ''%s'' (quote m) url"
  assume a: "n \<in> set (lookups (ext_pillar rx g h m p url wg)) \<and> g n = Inr v \<and> \<not> truthy v"
  then have wg: wg
    by (cases wg) (auto simp: ext_pillar_def Let_def split: prod.splits)
  obtain f lg lk where loop: "grain_loop rx g m (finditer_grain ?u1) ?u1 = (f, lg, lk)"
    by (cases "grain_loop rx g m (finditer_grain ?u1) ?u1") auto
  have lk: "lookups (ext_pillar rx g h m p url wg) = lk"
    using wg loop by (cases f) (auto simp: ext_pillar_def Let_def split: prod.splits)
  with a have "n \<in> set lk" by simp
  from grain_loop_falsy[OF loop this] a
  have f: "f = Leave (Val (PDict []))" and lg: "lg = [LogError fmt_grain [PStr m, PStr n]]"
    and b: "\<exists>before. lk = before @ [n] \<and> n \<notin> set before" by blast+
  from wg loop f lg have r: "ext_pillar rx g h m p url wg
      = \<lparr>outcome = Val (PDict []), logged = [LogError fmt_grain [PStr m, PStr n]],
         lookups = lk, queries = []\<rparr>"
    by (simp add: ext_pillar_def Let_def)
  from r show "outcome (ext_pillar rx g h m p url wg) = Val (PDict [])" by simp
  from r show "logged (ext_pillar rx g h m p url wg) = [LogError fmt_grain [PStr m, PStr n]]" by simp
  from r show "queries (ext_pillar rx g h m p url wg) = []" by simp
  from r b show "\<exists>before. lookups (ext_pillar rx g h m p url wg) = before @ [n] \<and> n \<notin> set before"
    by simp
qed

theorem falsy_grain_fails_witness:
  "finditer_grain (str_replace ''%s'' (quote ''minion'') ''http://x/<a>/<b>/<c>'') = [''a''] @ ''b'' # [''c'']
   \<and> grains_v ''a'' = Inr (GStr ''v'') \<and> truthy (GStr ''v'') \<and> plain ''a''
   \<and> grains_v ''b'' = Inr GNone \<and> \<not> truthy GNone
   \<and> ext_pillar re_none grains_v http_empty ''minion'' PNone ''http://x/<a>/<b>/<c>'' True
       = \<lparr>outcome = Val (PDict []),
          logged = [LogError fmt_grain [PStr ''minion'', PStr ''b'']],
          lookups = [''a'', ''b''], queries = []\<rparr>
   \<and> ''b'' \<in> set (lookups (ext_pillar re_none grains_v http_empty ''minion'' PNone ''http://x/<a>/<b>/<c>'' True))
   \<and> queries (ext_pillar re_none grains_v http_empty ''minion'' PNone ''http://x/<a>/<b>/<c>'' True) = []"
proof -
  let ?url = "''http://x/<a>/<b>/<c>''"
  let ?r = "ext_pillar re_none grains_v http_empty ''minion'' PNone ?url True"
  have names: "finditer_grain (str_replace ''%s'' (quote ''minion'') ?url) = [''a''] @ ''b'' # [''c'']"
    by (simp add: newline_def)
  have ga: "grains_v ''a'' = Inr (GStr ''v'')" and gb: "grains_v ''b'' = Inr GNone"
    by (simp_all add: grains_v_def)
  have pl: "plain ''a''" by (simp add: plain_def is_special_def backslash_def)
  have pass: "\<forall>x \<in> set [''a'']. \<exists>w. grains_v x = Inr w \<and> truthy w
            \<and> (\<forall>s. \<exists>r. re_sub re_none (''<'' @ x @ ''>'') (quote (py_str w)) s = Val r)"
    using ga plain_passes[OF pl, of re_none "''v''"] by simp
  have hyp1: "True \<and> finditer_grain (str_replace ''%s'' (quote ''minion'') ?url) = [''a''] @ ''b'' # [''c'']
      \<and> (\<forall>x \<in> set [''a'']. \<exists>w. grains_v x = Inr w \<and> truthy w
            \<and> (\<forall>s. \<exists>r. re_sub re_none (''<'' @ x @ ''>'') (quote (py_str w)) s = Val r))
      \<and> grains_v ''b'' = Inr GNone \<and> \<not> truthy GNone"
    using names pass gb by simp
  note t = falsy_grain_fails[of True "''minion''" ?url "[''a'']" "''b''" "[''c'']" grains_v re_none GNone
      http_empty PNone]
  from t[THEN conjunct1, rule_format, OF hyp1]
  have r: "?r = \<lparr>outcome = Val (PDict []),
          logged = [LogError fmt_grain [PStr ''minion'', PStr ''b'']],
          lookups = [''a'', ''b''], queries = []\<rparr>" by simp
  then have l: "''b'' \<in> set (lookups ?r)" by simp
  from t[THEN conjunct2, rule_format, OF conjI[OF l conjI[OF gb]]]
  have "queries ?r = []" by simp
  with names ga gb pl r l show ?thesis by simp
qed

text \<open>
  C5. Every occurrence of \<open>%s\<close> in the template is replaced by the percent-encoded minion
  id, before the placeholders in angle brackets are looked at and whatever
  \<open>with_grains\<close> is. The template is its segments between the occurrences of \<open>%s\<close>
  joined by \<open>%s\<close>, and no segment contains \<open>%s\<close>; the URL the call works on is the
  same segments joined by \<open>quote(minion_id)\<close>. Without \<open>with_grains\<close> that URL is
  queried and nothing is looked up. With \<open>with_grains\<close> the loop of lines 86 to 95 runs
  on that URL and its matches: the lookups are those of the loop and the query, if any,
  goes to the URL the loop has built, which for names without special characters and
  truthy grains is that URL with the grains substituted. In particular \<open>http://x/%s\<close>
  resolves to \<open>http://x/\<close> followed by \<open>quote(minion_id)\<close> for every minion id.
\<close>

theorem percent_s_replaced:
  "join ''%s'' (split_ps url) = url
   \<and> (\<forall>seg \<in> set (split_ps url). \<not> sublist ''%s'' seg)
   \<and> (\<not> wg \<longrightarrow> queries (ext_pillar rx g h m p url wg) = [join (quote m) (split_ps url)]
               \<and> lookups (ext_pillar rx g h m p url wg) = [])
   \<and> (wg \<longrightarrow> lookups (ext_pillar rx g h m p url wg)
                = snd (snd (grain_loop rx g m (finditer_grain (join (quote m) (split_ps url)))
                                       (join (quote m) (split_ps url))))
            \<and> queries (ext_pillar rx g h m p url wg)
                = (case fst (grain_loop rx g m (finditer_grain (join (quote m) (split_ps url)))
                                        (join (quote m) (split_ps url))) of
                     Next u \<Rightarrow> [u] | Leave x \<Rightarrow> []))
   \<and> (wg \<and> (\<forall>n \<in> set (finditer_grain (join (quote m) (split_ps url))).
               plain n \<and> (\<exists>w. g n = Inr w \<and> truthy w))
        \<longrightarrow> queries (ext_pillar rx g h m p url wg)
              = [substitute g (finditer_grain (join (quote m) (split_ps url)))
                   (join (quote m) (split_ps url))])
   \<and> queries (ext_pillar rx g h m p ''http://x/%s'' False) = [''http://x/'' @ quote m]"
proof -
  let ?U = "join (quote m) (split_ps url)"
  have r: "str_replace ''%s'' (quote m) url = ?U"
    by (rule str_replace_split)
  have a: "\<not> wg \<longrightarrow> queries (ext_pillar rx g h m p url wg) = [?U]
               \<and> lookups (ext_pillar rx g h m p url wg) = []"
    using r by (auto simp: ext_pillar_def Let_def split: prod.splits)
  obtain f lg lk where loop: "grain_loop rx g m (finditer_grain ?U) ?U = (f, lg, lk)"
    by (cases "grain_loop rx g m (finditer_grain ?U) ?U") auto
  have b: "wg \<longrightarrow> lookups (ext_pillar rx g h m p url wg) = snd (snd (grain_loop rx g m (finditer_grain ?U) ?U))
            \<and> queries (ext_pillar rx g h m p url wg)
                = (case fst (grain_loop rx g m (finditer_grain ?U) ?U) of Next u \<Rightarrow> [u] | Leave x \<Rightarrow> [])"
    using ext_pillar_loop[of rx g m url f lg lk h p] loop r by (cases f) auto
  have c: "wg \<and> (\<forall>n \<in> set (finditer_grain ?U). plain n \<and> (\<exists>w. g n = Inr w \<and> truthy w))
        \<longrightarrow> queries (ext_pillar rx g h m p url wg) = [substitute g (finditer_grain ?U) ?U]"
  proof
    assume h: "wg \<and> (\<forall>n \<in> set (finditer_grain ?U). plain n \<and> (\<exists>w. g n = Inr w \<and> truthy w))"
    then have "grain_loop rx g m (finditer_grain ?U) ?U
        = (Next (substitute g (finditer_grain ?U) ?U), [], finditer_grain ?U)"
      using grain_loop_plain[of "finditer_grain ?U" g rx m ?U] by simp
    with b h show "queries (ext_pillar rx g h m p url wg) = [substitute g (finditer_grain ?U) ?U]"
      by simp
  qed
  have d: "queries (ext_pillar rx g h m p ''http://x/%s'' False) = [''http://x/'' @ quote m]"
    using ext_pillar_no_placeholder[of False m "''http://x/%s''" rx g h p] by simp
  show ?thesis using join_split_ps[of url] split_ps_segments[of _ url] a b c d by blast
qed

theorem percent_s_replaced_witness:
  "split_ps ''http://x/%s/<a>/%s'' = [''http://x/'', ''/<a>/'', '''']
   \<and> \<not> sublist ''%s'' ''http://x/'' \<and> \<not> sublist ''%s'' ''/<a>/'' \<and> \<not> sublist ''%s'' []
   \<and> quote ''id 1'' = ''id%201''
   \<and> queries (ext_pillar re_none grains_v http_empty ''id 1'' PNone ''http://x/%s/<a>/%s'' False)
       = [''http://x/id%201/<a>/id%201'']
   \<and> finditer_grain ''http://x/id%201/<a>/id%201'' = [''a'']
   \<and> plain ''a'' \<and> grains_v ''a'' = Inr (GStr ''v'') \<and> truthy (GStr ''v'')
   \<and> queries (ext_pillar re_none grains_v http_empty ''id 1'' PNone ''http://x/%s/<a>/%s'' True)
       = [''http://x/id%201/v/id%201'']
   \<and> lookups (ext_pillar re_none grains_v http_empty ''id 1'' PNone ''http://x/%s/<a>/%s'' True) = [''a'']"
proof -
  let ?url = "''http://x/%s/<a>/%s''"
  have s: "split_ps ?url = [''http://x/'', ''/<a>/'', '''']" by simp
  have q: "quote ''id 1'' = ''id%201''"
    by (simp add: quote_def quote_char_def always_safe_def hex_digit_def)
  have U: "join (quote ''id 1'') (split_ps ?url) = ''http://x/id%201/<a>/id%201''"
    unfolding s q by simp
  have f: "finditer_grain ''http://x/id%201/<a>/id%201'' = [''a'']" by (simp add: newline_def)
  have pl: "plain ''a''" by (simp add: plain_def is_special_def backslash_def)
  have ga: "grains_v ''a'' = Inr (GStr ''v'')" by (simp add: grains_v_def)
  have qv: "quote ''v'' = ''v''" by (simp add: quote_def quote_char_def always_safe_def)
  have hyp: "True \<and> (\<forall>n \<in> set (finditer_grain (join (quote ''id 1'') (split_ps ?url))).
               plain n \<and> (\<exists>w. grains_v n = Inr w \<and> truthy w))"
    unfolding U f using pl ga by simp
  have sub: "substitute grains_v [''a''] ''http://x/id%201/<a>/id%201'' = ''http://x/id%201/v/id%201''"
    by (simp add: ga qv)
  have loop: "grain_loop re_none grains_v ''id 1'' [''a''] ''http://x/id%201/<a>/id%201''
      = (Next ''http://x/id%201/v/id%201'', [], [''a''])"
    using grain_loop_plain[of "[''a'']" grains_v re_none "''id 1''" "''http://x/id%201/<a>/id%201''"]
      pl ga sub by simp
  note t1 = percent_s_replaced[of ?url False re_none grains_v http_empty "''id 1''" PNone]
  note t2 = percent_s_replaced[of ?url True re_none grains_v http_empty "''id 1''" PNone]
  from t1 have a: "queries (ext_pillar re_none grains_v http_empty ''id 1'' PNone ?url False)
      = [''http://x/id%201/<a>/id%201'']" unfolding U by simp
  from t2 have segs: "\<forall>seg \<in> set (split_ps ?url). \<not> sublist ''%s'' seg" by blast
  from t2 hyp have b: "queries (ext_pillar re_none grains_v http_empty ''id 1'' PNone ?url True)
      = [''http://x/id%201/v/id%201'']" unfolding U f sub by blast
  from t2 have c: "lookups (ext_pillar re_none grains_v http_empty ''id 1'' PNone ?url True) = [''a'']"
    unfolding U f loop by simp
  from segs have n: "\<not> sublist ''%s'' ''http://x/'' \<and> \<not> sublist ''%s'' ''/<a>/'' \<and> \<not> sublist ''%s'' []"
    unfolding s by simp
  from s n q a f pl ga b c show ?thesis by simp
qed

text \<open>
  C10, as stated: a truthy grain value whose text contains \<open><other>\<close> leaves that text
  in the final URL. The value is quoted before it is substituted (line 94): for the grain
  \<open><other>\<close> the URL queried holds \<open>%3Cother%3E\<close> and not \<open><other>\<close>.
\<close>

theorem placeholder_text_counterexample:
  "queries (ext_pillar re_none grains_other http_empty ''m'' PNone ''http://x/<a>'' True)
     = [''http://x/%3Cother%3E'']
   \<and> \<not> sublist ''<other>'' ''http://x/%3Cother%3E''"
proof -
  have q: "quote ''<other>'' = ''%3Cother%3E''"
    by (simp add: quote_def quote_char_def always_safe_def hex_digit_def)
  have "queries (ext_pillar re_none grains_other http_empty ''m'' PNone ''http://x/<a>'' True)
     = [''http://x/%3Cother%3E'']"
    by (simp add: eval_defs grains_other_def http_empty_def)
  moreover have "\<not> sublist ''<other>'' ''http://x/%3Cother%3E''"
    by (simp add: sublist_Cons_right)
  ultimately show ?thesis by simp
qed

text \<open>
  C10, amended. Substituted values are never scanned for placeholders: the grain names a
  call looks up are, in order, an initial part of the matches found in the URL as it stood
  after the \<open>%s\<close> substitution and before any grain substitution, and all of them when
  the call reaches the HTTP query. What is substituted is the percent-encoded text, of a
  grain value or of the minion id; it has no \<open><\<close> and so no match. For a URL with one
  placeholder, of a name without special characters, the URL queried is the URL with
  the placeholder replaced by the encoded text, and contains that text. For a URL whose
  placeholder names are all without special characters, with truthy grains, every name
  is looked up and the URL queried is the URL with, for each name in turn, every literal
  \<open><name>\<close> replaced by the encoded text of its grain.
\<close>

theorem placeholders_fixed_before_loop:
  "prefix (lookups (ext_pillar rx g h m p url wg))
          (finditer_grain (str_replace ''%s'' (quote m) url))
   \<and> (wg \<and> queries (ext_pillar rx g h m p url wg) \<noteq> [] \<longrightarrow>
        lookups (ext_pillar rx g h m p url wg) = finditer_grain (str_replace ''%s'' (quote m) url))
   \<and> CHR ''<'' \<notin> set (quote s) \<and> finditer_grain (quote s) = []
   \<and> (wg \<and> finditer_grain (str_replace ''%s'' (quote m) url) = [n] \<and> plain n
         \<and> g n = Inr w \<and> truthy w
       \<longrightarrow> lookups (ext_pillar rx g h m p url wg) = [n]
           \<and> queries (ext_pillar rx g h m p url wg)
               = [str_replace (''<'' @ n @ ''>'') (quote (py_str w)) (str_replace ''%s'' (quote m) url)]
           \<and> sublist (quote (py_str w))
                (str_replace (''<'' @ n @ ''>'') (quote (py_str w)) (str_replace ''%s'' (quote m) url)))
   \<and> (wg \<and> (\<forall>x \<in> set (finditer_grain (str_replace ''%s'' (quote m) url)).
               plain x \<and> (\<exists>v. g x = Inr v \<and> truthy v))
       \<longrightarrow> lookups (ext_pillar rx g h m p url wg) = finditer_grain (str_replace ''%s'' (quote m) url)
           \<and> queries (ext_pillar rx g h m p url wg)
               = [substitute g (finditer_grain (str_replace ''%s'' (quote m) url))
                    (str_replace ''%s'' (quote m) url)])"
proof -
  let ?U = "str_replace ''%s'' (quote m) url"
  let ?r = "ext_pillar rx g h m p url wg"
  have a: "wg \<and> queries ?r \<noteq> [] \<longrightarrow> lookups ?r = finditer_grain ?U"
  proof
    assume a: "wg \<and> queries ?r \<noteq> []"
    then obtain u where "queries ?r = [u]"
      by (auto simp: ext_pillar_def Let_def split: prod.splits flow.splits if_splits)
    from ext_pillar_query[OF this] a show "lookups ?r = finditer_grain ?U" by simp
  qed
  have b: "wg \<and> finditer_grain ?U = [n] \<and> plain n \<and> g n = Inr w \<and> truthy w
       \<longrightarrow> lookups ?r = [n]
           \<and> queries ?r = [str_replace (''<'' @ n @ ''>'') (quote (py_str w)) ?U]
           \<and> sublist (quote (py_str w)) (str_replace (''<'' @ n @ ''>'') (quote (py_str w)) ?U)"
  proof
    assume h: "wg \<and> finditer_grain ?U = [n] \<and> plain n \<and> g n = Inr w \<and> truthy w"
    then have loop: "grain_loop rx g m (finditer_grain ?U) ?U
        = (Next (str_replace (''<'' @ n @ ''>'') (quote (py_str w)) ?U), [], [n])"
      using grain_loop_plain[of "[n]" g rx m ?U] by simp
    from h have "n \<in> set (finditer_grain ?U)" by simp
    then have occ: "sublist (''<'' @ n @ ''>'') ?U" by (rule finditer_grain_occurs)
    have c: "sublist (quote (py_str w)) (str_replace (''<'' @ n @ ''>'') (quote (py_str w)) ?U)"
      by (rule str_replace_contains[OF _ occ]) simp
    from ext_pillar_loop[OF loop, of h p] h c
    show "lookups ?r = [n]
           \<and> queries ?r = [str_replace (''<'' @ n @ ''>'') (quote (py_str w)) ?U]
           \<and> sublist (quote (py_str w)) (str_replace (''<'' @ n @ ''>'') (quote (py_str w)) ?U)"
      by simp
  qed
  have c: "wg \<and> (\<forall>x \<in> set (finditer_grain ?U). plain x \<and> (\<exists>v. g x = Inr v \<and> truthy v))
       \<longrightarrow> lookups ?r = finditer_grain ?U
           \<and> queries ?r = [substitute g (finditer_grain ?U) ?U]"
  proof
    assume h: "wg \<and> (\<forall>x \<in> set (finditer_grain ?U). plain x \<and> (\<exists>v. g x = Inr v \<and> truthy v))"
    then have "grain_loop rx g m (finditer_grain ?U) ?U
        = (Next (substitute g (finditer_grain ?U) ?U), [], finditer_grain ?U)"
      using grain_loop_plain[of "finditer_grain ?U" g rx m ?U] by simp
    from ext_pillar_loop[OF this, of h p] h
    show "lookups ?r = finditer_grain ?U \<and> queries ?r = [substitute g (finditer_grain ?U) ?U]"
      by simp
  qed
  show ?thesis
    using ext_pillar_lookups_prefix[of rx g h m p url wg] a b c quote_no_lt[of s]
      finditer_grain_none[OF quote_no_lt, of s]
    by blast
qed

theorem placeholders_fixed_before_loop_witness:
  "finditer_grain (str_replace ''%s'' (quote ''<m>'') ''http://x/%s/<a>'') = [''a'']
   \<and> plain ''a'' \<and> grains_other ''a'' = Inr (GStr ''<other>'') \<and> truthy (GStr ''<other>'')
   \<and> queries (ext_pillar re_none grains_other http_empty ''<m>'' PNone ''http://x/%s/<a>'' True)
      = [''http://x/%3Cm%3E/%3Cother%3E'']
   \<and> lookups (ext_pillar re_none grains_other http_empty ''<m>'' PNone ''http://x/%s/<a>'' True)
      = [''a'']
   \<and> sublist ''%3Cother%3E'' ''http://x/%3Cm%3E/%3Cother%3E''"
proof -
  let ?url = "''http://x/%s/<a>''"
  let ?r = "ext_pillar re_none grains_other http_empty ''<m>'' PNone ?url True"
  have q: "quote ''<m>'' = ''%3Cm%3E''" "quote ''<other>'' = ''%3Cother%3E''"
    by (simp_all add: quote_def quote_char_def always_safe_def hex_digit_def)
  have U: "str_replace ''%s'' (quote ''<m>'') ?url = ''http://x/%3Cm%3E/<a>''"
    by (simp add: q)
  have f: "finditer_grain (str_replace ''%s'' (quote ''<m>'') ?url) = [''a'']"
    unfolding U by (simp add: newline_def)
  have pl: "plain ''a''" by (simp add: plain_def is_special_def backslash_def)
  have ga: "grains_other ''a'' = Inr (GStr ''<other>'')" by (simp add: grains_other_def)
  have sub: "str_replace (''<'' @ ''a'' @ ''>'') (quote (py_str (GStr ''<other>''))) ''http://x/%3Cm%3E/<a>''
      = ''http://x/%3Cm%3E/%3Cother%3E''"
    by (simp add: q)
  have hyp: "True \<and> finditer_grain (str_replace ''%s'' (quote ''<m>'') ?url) = [''a''] \<and> plain ''a''
         \<and> grains_other ''a'' = Inr (GStr ''<other>'') \<and> truthy (GStr ''<other>'')"
    using f pl ga by simp
  note t = placeholders_fixed_before_loop[of re_none grains_other http_empty "''<m>''" PNone ?url True
      "[]" "''a''" "GStr ''<other>''"]
  from t hyp have c: "lookups ?r = [''a'']
           \<and> queries ?r = [str_replace (''<'' @ ''a'' @ ''>'') (quote (py_str (GStr ''<other>'')))
                             (str_replace ''%s'' (quote ''<m>'') ?url)]
           \<and> sublist (quote (py_str (GStr ''<other>'')))
                (str_replace (''<'' @ ''a'' @ ''>'') (quote (py_str (GStr ''<other>'')))
                   (str_replace ''%s'' (quote ''<m>'') ?url))"
    by blast
  from c have l: "lookups ?r = [''a'']" by simp
  from c have qq: "queries ?r = [''http://x/%3Cm%3E/%3Cother%3E'']" unfolding U sub by simp
  from c have s: "sublist ''%3Cother%3E'' ''http://x/%3Cm%3E/%3Cother%3E''"
    unfolding U sub by (simp add: q)
  have tr: "truthy (GStr ''<other>'')" by simp
  from f pl ga tr l qq s show ?thesis by blast
qed

text \<open>
  With more placeholders, a later substitution works on the text put in by an earlier one
  as on the rest of the URL.
\<close>

lemma later_substitution_rewrites:
  "lookups (ext_pillar rx grains_rewrite http_empty ''m'' PNone ''http://x/<a>/<?.*>'' True)
     = [''a'', ''?.*'']
   \<and> queries (ext_pillar rx grains_rewrite http_empty ''m'' PNone ''http://x/<a>/<?.*>'' True)
     = [''w'']"
  by (simp add: eval_defs grains_rewrite_def http_empty_def list_all_def)

text \<open>
  C4, as the spec states it: for the template \<open>http://x/<a>/<a>\<close> with \<open>with_grains\<close>
  and the grain \<open>a\<close> being \<open>v\<close>, the resolved URL is \<open>http://x/v/v\<close> and the grain
  \<open>a\<close> is looked up exactly once. The loop runs once for each match of the pattern, so
  the grain is looked up twice.
\<close>

theorem single_lookup_counterexample:
  "\<not> (queries (ext_pillar re_none grains_v http_empty ''m'' PNone ''http://x/<a>/<a>'' True) = [''http://x/v/v'']
      \<and> count_list (lookups (ext_pillar re_none grains_v http_empty ''m'' PNone ''http://x/<a>/<a>'' True)) ''a'' = 1)"
  by (simp add: eval_defs grains_v_def http_empty_def)

text \<open>
  C4, amended: the resolved URL is \<open>http://x/v/v\<close>, and \<open>grains.get\<close> is called for
  \<open>a\<close> twice, once for each occurrence of the placeholder.
\<close>

theorem repeated_placeholder:
  assumes "g ''a'' = Inr (GStr ''v'')"
  shows "queries (ext_pillar rx g h m p ''http://x/<a>/<a>'' True) = [''http://x/v/v'']
       \<and> lookups (ext_pillar rx g h m p ''http://x/<a>/<a>'' True) = [''a'', ''a'']"
  using assms by (simp add: eval_defs split: prod.splits)

theorem repeated_placeholder_witness:
  "grains_v ''a'' = Inr (GStr ''v'')
   \<and> queries (ext_pillar re_none grains_v http_empty ''m'' PNone ''http://x/<a>/<a>'' True) = [''http://x/v/v'']
   \<and> lookups (ext_pillar re_none grains_v http_empty ''m'' PNone ''http://x/<a>/<a>'' True) = [''a'', ''a'']"
proof -
  have g: "grains_v ''a'' = Inr (GStr ''v'')" by (simp add: grains_v_def)
  from g repeated_placeholder[of grains_v re_none http_empty "''m''" PNone] show ?thesis by simp
qed

text \<open>
  C2. The spec asks for every literal occurrence of \<open><name>\<close> to be replaced by the
  encoded value, whatever characters the name has. Line 95 passes \<open><name>\<close> to
  \<open>re.sub\<close> as a pattern: for the grain \<open>a+b\<close> the pattern \<open><a+b>\<close> does not match the
  text \<open><a+b>\<close>, and the query goes to the URL with the placeholder still in it, where
  the literal replacement gives \<open>http://x/v\<close>.
\<close>

theorem special_name_not_replaced:
  "queries (ext_pillar rx grains_plus http_empty ''m'' PNone ''http://x/<a+b>'' True) = [''http://x/<a+b>'']
   \<and> lookups (ext_pillar rx grains_plus http_empty ''m'' PNone ''http://x/<a+b>'' True) = [''a+b'']
   \<and> str_replace ''<a+b>'' (quote ''v'') ''http://x/<a+b>'' = ''http://x/v''"
  by (simp add: eval_defs grains_plus_def http_empty_def)

text \<open>
  A name with an unbalanced parenthesis does not compile as a pattern, and \<open>re.error\<close>
  leaves the function.
\<close>

lemma special_name_raises:
  "outcome (ext_pillar rx grains_paren http_empty ''m'' PNone ''http://x/<(>'' True) = Raised ReError
   \<and> queries (ext_pillar rx grains_paren http_empty ''m'' PNone ''http://x/<(>'' True) = []"
  by (simp add: eval_defs grains_paren_def http_empty_def)

text \<open>For a name without special characters line 95 is the literal replacement.\<close>

lemma plain_name_replaced:
  assumes "plain n" and "g n = Inr v" and "truthy v"
  shows "grain_loop rx g m [n] url
       = (Next (str_replace (''<'' @ n @ ''>'') (quote (py_str v)) url), [], [n])"
  using assms re_sub_plain[OF assms(1) quote_no_backslash, of rx "py_str v" url] by simp




text \<open>
  C8. \<open>ext_pillar\<close> is a function of its arguments and of the answers its collaborators
  give to the calls it makes: with another \<open>grains.get\<close> that answers alike on the names
  looked up, another \<open>http.query\<close> that answers alike on the URL queried, and any other
  \<open>pillar\<close> argument, the outcome, the log, the lookups and the query are the same. The
  trace of a call has no other component: the source assigns to no global and to no
  part of an argument.
\<close>

theorem deterministic:
  assumes "\<forall>n \<in> set (lookups (ext_pillar rx g h m p url wg)). g' n = g n"
    and "\<forall>u \<in> set (queries (ext_pillar rx g h m p url wg)). h' u = h u"
  shows "ext_pillar rx g' h' m p' url wg = ext_pillar rx g h m p url wg"
proof -
  let ?u1 = "str_replace ''%s'' (quote m) url"
  show ?thesis
  proof (cases wg)
    case False
    then have "queries (ext_pillar rx g h m p url wg) = [?u1]"
      by (simp add: ext_pillar_no_placeholder)
    with assms(2) have "h' ?u1 = h ?u1" by simp
    from fetch_cong[of h' ?u1 h m] this False show ?thesis
      by (simp add: ext_pillar_def Let_def)
  next
    case True
    obtain f lg lk where loop: "grain_loop rx g m (finditer_grain ?u1) ?u1 = (f, lg, lk)"
      by (cases "grain_loop rx g m (finditer_grain ?u1) ?u1") auto
    have lk: "lookups (ext_pillar rx g h m p url wg) = lk"
      using True loop by (cases f) (auto simp: ext_pillar_def Let_def split: prod.splits)
    with assms(1) have "\<forall>n \<in> set lk. g' n = g n" by simp
    from grain_loop_cong[OF loop this]
    have loop': "grain_loop rx g' m (finditer_grain ?u1) ?u1 = (f, lg, lk)" .
    show ?thesis
    proof (cases f)
      case (Leave r)
      with True loop loop' show ?thesis by (simp add: ext_pillar_def Let_def)
    next
      case (Next u2)
      with True loop have "queries (ext_pillar rx g h m p url wg) = [u2]"
        by (simp add: ext_pillar_def Let_def split: prod.splits)
      with assms(2) have "h' u2 = h u2" by simp
      from fetch_cong[of h' u2 h m] this Next True loop loop' show ?thesis
        by (simp add: ext_pillar_def Let_def)
    qed
  qed
qed

theorem deterministic_witness:
  "lookups (ext_pillar re_none grains_v http_empty ''m'' PNone ''http://x/<a>'' True) = [''a'']
   \<and> grains_w ''a'' = grains_v ''a'' \<and> grains_w ''b'' \<noteq> grains_v ''b''
   \<and> queries (ext_pillar re_none grains_v http_empty ''m'' PNone ''http://x/<a>'' True) = [''http://x/v'']
   \<and> http_other ''http://x/v'' = http_empty ''http://x/v''
   \<and> http_other ''http://y/'' \<noteq> http_empty ''http://y/''
   \<and> ext_pillar re_none grains_w http_other ''m'' (PInt 1) ''http://x/<a>'' True
       = ext_pillar re_none grains_v http_empty ''m'' PNone ''http://x/<a>'' True"
proof -
  let ?r = "ext_pillar re_none grains_v http_empty ''m'' PNone ''http://x/<a>'' True"
  have l: "lookups ?r = [''a'']" by (simp add: eval_defs grains_v_def http_empty_def)
  have q: "queries ?r = [''http://x/v'']" by (simp add: eval_defs grains_v_def http_empty_def)
  have g: "grains_w ''a'' = grains_v ''a''" "grains_w ''b'' \<noteq> grains_v ''b''"
    by (simp_all add: grains_w_def grains_v_def)
  have h: "http_other ''http://x/v'' = http_empty ''http://x/v''"
    "http_other ''http://y/'' \<noteq> http_empty ''http://y/''"
    by (simp_all add: http_other_def http_empty_def)
  have h1: "\<forall>n \<in> set (lookups ?r). grains_w n = grains_v n" unfolding l using g by simp
  have h2: "\<forall>u \<in> set (queries ?r). http_other u = http_empty u" unfolding q using h by simp
  from deterministic[OF h1 h2, of "PInt 1"] l q g h show ?thesis by blast
qed

end
